theory Spec2Isabelle
  imports Complex_Main "HOL-Library.Word"
begin

section \<open>The playback queue of gomusic (main.go)\<close>

text \<open>
  A shallow embedding of the track loader and of the \<open>tracksQueue\<close> methods of
  \<open>main.go\<close>. Every method becomes a function on the queue value. A Go panic (index out
  of range, nil dereference, a panic raised by the resampler's constructor) is a value of
  type \<open>panic\<close>; a method that can panic returns \<open>panic + tracksQueue\<close>. The speaker lock
  and the audio thread that drains the installed streamer are not modelled: the functions
  describe what one method call does on the control thread.
\<close>

subsection \<open>Errors and panics\<close>

datatype error = errFormatUnsupported | errFileIsNotTrack | ExternalError string

datatype panic = IndexOutOfRange | NilDereference | ResampleInvalidQuality | ResampleInvalidRatio

subsection \<open>The consumed capabilities: decoder, resampler, streamers, speaker\<close>

text \<open>
  Modelled from the spec: the decoder capability (section 6, "source.position(),
  source.seek(offset), source.close()" and a length). A decoder is an object on the heap;
  a track holds a reference to it. Seek moves the position when the offset lies within
  the stream and otherwise reports an error, which main.go ignores.
\<close>

type_synonym ref = nat

record decoder =
  d_pos :: nat
  d_len :: nat
  d_closed :: bool

definition Position :: "decoder \<Rightarrow> nat" where
  "Position d = d_pos d"

definition Len :: "decoder \<Rightarrow> nat" where
  "Len d = d_len d"

definition Seek :: "decoder \<Rightarrow> nat \<Rightarrow> decoder" where
  "Seek d p = (if p \<le> d_len d then d\<lparr>d_pos := p\<rparr> else d)"

definition Close :: "decoder \<Rightarrow> decoder" where
  "Close d = d\<lparr>d_closed := True\<rparr>"

text \<open>
  Streamers as values. \<open>Resampler quality old new src\<close> is the streamer built by
  \<open>beep.Resample(quality, old, new, src)\<close>: it streams the decoder \<open>src\<close>, taken to be at
  sample rate \<open>old\<close>, converted to sample rate \<open>new\<close>. \<open>Callback msg\<close> stands for
  \<open>beep.Callback(func() { program.Send(msg) })\<close>, \<open>Seq\<close> for \<open>beep.Seq\<close>, and
  \<open>NilStreamer\<close> for the nil interface value.
\<close>

datatype streamer =
    NilStreamer
  | Resampler int int int "ref option"
  | Callback string
  | Seq "streamer list"

text \<open>
  Modelled from the spec: the resampler capability "resample(quality, from_rate, to_rate,
  source) -> streamer". The constructor of the beep library (\<open>ResampleRatio\<close>) panics on
  a quality outside 1..64 and on an invalid ratio \<open>float64(old) / float64(new)\<close>: one that
  is infinite or not a number, which is the case exactly when \<open>new\<close> is 0, or one that is
  not positive. These panics are kept.
\<close>

definition Resample :: "int \<Rightarrow> int \<Rightarrow> int \<Rightarrow> ref option \<Rightarrow> panic + streamer" where
  "Resample quality old new s =
     (if quality < 1 \<or> 64 < quality then Inl ResampleInvalidQuality
      else if new = 0 \<or> real_of_int old / real_of_int new \<le> 0 then Inl ResampleInvalidRatio
      else Inr (Resampler quality old new s))"

text \<open>
  What a streamer emits when it is drained from left to right: the samples of each
  resampled source, and each callback's message at the point where it runs. A \<open>Seq\<close>
  drains its parts in order.
\<close>

datatype emission = Samples int int int "ref option" | Notify string | NilPlayed

fun emissions :: "streamer \<Rightarrow> emission list" where
  "emissions NilStreamer = [NilPlayed]"
| "emissions (Resampler q old new s) = [Samples q old new s]"
| "emissions (Callback m) = [Notify m]"
| "emissions (Seq ss) = concat (map emissions ss)"

text \<open>
  A value of type float64, with exact real arithmetic on the finite values: rounding is
  not modelled. \<open>math_Log10\<close> follows the special cases of Go's \<open>math.Log10\<close>.
\<close>

datatype f64 = Fin real | PInf | NInf | NaN

fun f64_add :: "f64 \<Rightarrow> f64 \<Rightarrow> f64" where
  "f64_add (Fin a) (Fin b) = Fin (a + b)"
| "f64_add NaN _ = NaN"
| "f64_add _ NaN = NaN"
| "f64_add PInf NInf = NaN"
| "f64_add NInf PInf = NaN"
| "f64_add PInf _ = PInf"
| "f64_add _ PInf = PInf"
| "f64_add NInf _ = NInf"
| "f64_add _ NInf = NInf"

fun f64_neg :: "f64 \<Rightarrow> f64" where
  "f64_neg (Fin a) = Fin (- a)"
| "f64_neg PInf = NInf"
| "f64_neg NInf = PInf"
| "f64_neg NaN = NaN"

definition f64_sub :: "f64 \<Rightarrow> f64 \<Rightarrow> f64" where
  "f64_sub a b = f64_add a (f64_neg b)"

fun math_Log10 :: "f64 \<Rightarrow> f64" where
  "math_Log10 (Fin x) = (if x < 0 then NaN else if x = 0 then NInf else Fin (log 10 x))"
| "math_Log10 PInf = PInf"
| "math_Log10 NInf = NaN"
| "math_Log10 NaN = NaN"

subsection \<open>Paths\<close>

text \<open>\<open>filepath.Ext\<close> and \<open>filepath.Base\<close> of Go's standard library, with \<open>/\<close> as separator.\<close>

fun ext_scan :: "string \<Rightarrow> string \<Rightarrow> string" where
  "ext_scan [] acc = []"
| "ext_scan (c # cs) acc =
     (if c = CHR ''/'' then []
      else if c = CHR ''.'' then c # acc
      else ext_scan cs (c # acc))"

definition filepath_Ext :: "string \<Rightarrow> string" where
  "filepath_Ext p = ext_scan (rev p) []"

definition filepath_Base :: "string \<Rightarrow> string" where
  "filepath_Base p =
     (if p = [] then ''.''
      else (let stripped = rev (dropWhile (\<lambda>c. c = CHR ''/'') (rev p));
                elem = rev (takeWhile (\<lambda>c. c \<noteq> CHR ''/'') (rev stripped))
            in if elem = [] then ''/'' else elem))"

subsection \<open>Tracks and loadTrack\<close>

definition supportedFormats :: "string list" where
  "supportedFormats = [''mp3'']"

definition basicSampleRate :: int where
  "basicSampleRate = 44100"

record Format =
  SampleRate :: int
  NumChannels :: int
  Precision :: int

record track =
  path :: string
  stream :: "ref option"
  resampled :: streamer
  format :: Format
  ended :: bool

text \<open>The zero values \<open>beep.Format{}\<close> and \<open>track{}\<close>.\<close>

definition Format_zero :: Format where
  "Format_zero = \<lparr>SampleRate = 0, NumChannels = 0, Precision = 0\<rparr>"

definition track_zero :: track where
  "track_zero = \<lparr>path = [], stream = None, resampled = NilStreamer,
                 format = Format_zero, ended = False\<rparr>"

text \<open>
  The environment of \<open>loadTrack\<close>: what \<open>os.Open\<close>, \<open>File.Stat\<close> (reduced to \<open>IsDir\<close>)
  and \<open>mp3.Decode\<close> answer. \<open>mp3.Decode\<close> returns a decoder and its format, or nil, the
  zero format and an error.
\<close>

type_synonym file_handle = nat

record env =
  os_Open :: "string \<Rightarrow> error + file_handle"
  file_Stat :: "file_handle \<Rightarrow> error + bool"
  mp3_Decode :: "file_handle \<Rightarrow> error + (ref \<times> Format)"

definition loadTrack :: "env \<Rightarrow> string \<Rightarrow> panic + (track \<times> error option)" where
  "loadTrack e trackPath =
     (let ext = filepath_Ext trackPath;
          fileFormat = (if ext \<noteq> [] then tl ext else ext)
      in if fileFormat \<notin> set supportedFormats then Inr (track_zero, Some errFormatUnsupported)
         else (case os_Open e trackPath of
                 Inl err \<Rightarrow> Inr (track_zero, Some err)
               | Inr f \<Rightarrow>
                  (case file_Stat e f of
                     Inl err \<Rightarrow> Inr (track_zero, Some err)
                   | Inr isDir \<Rightarrow>
                       if isDir then Inr (track_zero, Some errFileIsNotTrack)
                       else (let (streamer, fmt, err) =
                                   (case mp3_Decode e f of
                                      Inl de \<Rightarrow> (None, Format_zero, Some de)
                                    | Inr (d, fm) \<Rightarrow> (Some d, fm, None))
                             in case Resample 4 (SampleRate fmt) basicSampleRate streamer of
                                  Inl p \<Rightarrow> Inl p
                                | Inr r \<Rightarrow>
                                    (case err of
                                       Some de \<Rightarrow> Inr (track_zero, Some de)
                                     | None \<Rightarrow>
                                         Inr (\<lparr>path = trackPath, stream = streamer,
                                                resampled = r, format = fmt,
                                                ended = False\<rparr>, None))))))"

subsection \<open>The queue\<close>

text \<open>
  The struct \<open>tracksQueue\<close>, with \<open>ctrl\<close> (\<open>beep.Ctrl\<close>: Streamer, Paused) and \<open>volume\<close>
  (\<open>effects.Volume\<close>: Base, Volume, Silent) flattened into it. \<open>currentTrack\<close> is an index
  into \<open>queue\<close> and is modelled as an integer; \<open>volumeChange\<close> is a Go \<open>int\<close> that only
  ever takes part in additions, modelled as a 64-bit word read in two's complement. Two
  further fields hold the state outside the struct that its methods change: the decoder
  objects the tracks refer to, and the number of streamers the global speaker is playing
  (each of them is \<open>&s.volume\<close>).
\<close>

record tracksQueue =
  queue :: "track list"
  ctrl_Streamer :: streamer
  ctrl_Paused :: bool
  volume_Base :: f64
  volume_Volume :: f64
  volume_Silent :: bool
  currentTrack :: int
  speakerInitialized :: bool
  volumeChange :: "64 word"
  decoders :: "ref \<Rightarrow> decoder"
  speaker_playing :: nat

definition newTrackQueue :: "(ref \<Rightarrow> decoder) \<Rightarrow> tracksQueue" where
  "newTrackQueue h =
     \<lparr>queue = [], ctrl_Streamer = NilStreamer, ctrl_Paused = False,
      volume_Base = Fin 10, volume_Volume = Fin 0, volume_Silent = False,
      currentTrack = 0, speakerInitialized = False, volumeChange = 0,
      decoders = h, speaker_playing = 0\<rparr>"

definition len :: "tracksQueue \<Rightarrow> int" where
  "len s = int (length (queue s))"

definition getTracks :: "tracksQueue \<Rightarrow> track list" where
  "getTracks s = queue s"

fun hasTrack_loop :: "track list \<Rightarrow> string \<Rightarrow> bool" where
  "hasTrack_loop [] trackPath = False"
| "hasTrack_loop (t # ts) trackPath = (if path t = trackPath then True else hasTrack_loop ts trackPath)"

definition hasTrack :: "tracksQueue \<Rightarrow> string \<Rightarrow> bool" where
  "hasTrack s trackPath = hasTrack_loop (queue s) trackPath"

definition getCurrentTrack :: "tracksQueue \<Rightarrow> panic + (track \<times> bool)" where
  "getCurrentTrack s =
     (if len s = 0 then Inr (track_zero, False)
      else if 0 \<le> currentTrack s \<and> currentTrack s < len s
           then Inr (queue s ! nat (currentTrack s), True)
           else Inl IndexOutOfRange)"

definition getCurrentTrackIndex :: "tracksQueue \<Rightarrow> int" where
  "getCurrentTrackIndex s = currentTrack s"

text \<open>The speaker: \<open>speaker.Clear()\<close> drops every playing streamer, \<open>speaker.Play\<close> adds one.\<close>

definition speaker_Clear :: "tracksQueue \<Rightarrow> tracksQueue" where
  "speaker_Clear s = s\<lparr>speaker_playing := 0\<rparr>"

definition speaker_Play :: "tracksQueue \<Rightarrow> tracksQueue" where
  "speaker_Play s = s\<lparr>speaker_playing := speaker_playing s + 1\<rparr>"

text \<open>The loop of \<open>rebuildStreamer\<close>, with the slice \<open>streamers\<close> as accumulator.\<close>

fun rebuild_loop :: "track list \<Rightarrow> streamer list \<Rightarrow> streamer list" where
  "rebuild_loop [] streamers = streamers"
| "rebuild_loop (t # ts) streamers =
     (if \<not> ended t
      then rebuild_loop ts (streamers @ [Seq [resampled t, Callback ''f'']])
      else rebuild_loop ts streamers)"

definition rebuildStreamer :: "tracksQueue \<Rightarrow> tracksQueue" where
  "rebuildStreamer s = s\<lparr>ctrl_Streamer := Seq (rebuild_loop (queue s) [])\<rparr>"

definition addTrack :: "tracksQueue \<Rightarrow> track \<Rightarrow> tracksQueue" where
  "addTrack s t = rebuildStreamer (s\<lparr>queue := queue s @ [t]\<rparr>)"

definition play :: "tracksQueue \<Rightarrow> tracksQueue" where
  "play s = (let s1 = speaker_Clear s in if len s1 \<noteq> 0 then speaker_Play s1 else s1)"

text \<open>The assignment \<open>s.queue[i].ended = b\<close>, which panics when \<open>i\<close> is out of range.\<close>

definition set_ended :: "tracksQueue \<Rightarrow> int \<Rightarrow> bool \<Rightarrow> panic + tracksQueue" where
  "set_ended s i b =
     (if 0 \<le> i \<and> i < len s
      then Inr (s\<lparr>queue := (queue s)[nat i := (queue s ! nat i)\<lparr>ended := b\<rparr>]\<rparr>)
      else Inl IndexOutOfRange)"

definition nextTrack :: "tracksQueue \<Rightarrow> panic + tracksQueue" where
  "nextTrack s =
     (case (if len s \<noteq> 0 then set_ended s (currentTrack s) True else Inr s) of
        Inl p \<Rightarrow> Inl p
      | Inr s1 \<Rightarrow>
          if currentTrack s1 + 1 \<ge> len s1 then Inr s1
          else Inr (play (speaker_Clear (rebuildStreamer (s1\<lparr>currentTrack := currentTrack s1 + 1\<rparr>)))))"

definition prevTrack :: "tracksQueue \<Rightarrow> panic + tracksQueue" where
  "prevTrack s =
     (if currentTrack s - 1 < 0 then Inr s
      else (let s1 = s\<lparr>currentTrack := currentTrack s - 1\<rparr>
            in case set_ended s1 (currentTrack s1) False of
                 Inl p \<Rightarrow> Inl p
               | Inr s2 \<Rightarrow> Inr (play (speaker_Clear (rebuildStreamer s2)))))"

definition restartTrack :: "tracksQueue \<Rightarrow> int \<Rightarrow> panic + tracksQueue" where
  "restartTrack s index =
     (case set_ended s index False of
        Inl p \<Rightarrow> Inl p
      | Inr s1 \<Rightarrow>
         (let i = nat index; currentSong = queue s1 ! i
          in case stream currentSong of
               None \<Rightarrow> Inl NilDereference
             | Some r \<Rightarrow>
                (let d = decoders s1 r;
                     was_ended = (Position d = Len d);
                     s2 = s1\<lparr>decoders := (decoders s1)(r := Seek d 0)\<rparr>
                 in if was_ended
                    then (case Resample 4 basicSampleRate (SampleRate (format currentSong))
                                 (stream currentSong) of
                            Inl p \<Rightarrow> Inl p
                          | Inr rs \<Rightarrow>
                              Inr (play (rebuildStreamer
                                     (s2\<lparr>queue := (queue s2)[i := currentSong\<lparr>resampled := rs\<rparr>]\<rparr>))))
                    else Inr s2)))"

definition restartCurrentTrack :: "tracksQueue \<Rightarrow> panic + tracksQueue" where
  "restartCurrentTrack s = (if len s = 0 then Inr s else restartTrack s (currentTrack s))"

fun restart_loop :: "nat list \<Rightarrow> tracksQueue \<Rightarrow> panic + tracksQueue" where
  "restart_loop [] s = Inr s"
| "restart_loop (i # is) s =
     (case restartTrack s (int i) of Inl p \<Rightarrow> Inl p | Inr s1 \<Rightarrow> restart_loop is s1)"

definition restartQueue :: "tracksQueue \<Rightarrow> panic + tracksQueue" where
  "restartQueue s =
     (case restart_loop [0 ..< length (queue s)] s of
        Inl p \<Rightarrow> Inl p
      | Inr s1 \<Rightarrow> Inr (rebuildStreamer (s1\<lparr>currentTrack := 0\<rparr>)))"

definition f64_of_int :: "64 word \<Rightarrow> f64" where
  "f64_of_int v = Fin (real_of_int (sint v))"

definition changeVolume :: "tracksQueue \<Rightarrow> 64 word \<Rightarrow> tracksQueue" where
  "changeVolume s percents =
     (if sint (volumeChange s + percents) < - 100 then s
      else (let s1 = s\<lparr>volumeChange := volumeChange s + percents\<rparr>;
                s2 = (if volumeChange s1 = - 100 then s1\<lparr>volume_Silent := True\<rparr>
                      else s1\<lparr>volume_Silent := False\<rparr>);
                s3 = s2\<lparr>volume_Volume :=
                          f64_sub (math_Log10 (f64_add (Fin 100) (f64_of_int (volumeChange s2))))
                                  (Fin 2)\<rparr>
            in speaker_Play (speaker_Clear s3)))"

definition unpause :: "tracksQueue \<Rightarrow> tracksQueue" where
  "unpause s = s\<lparr>ctrl_Paused := False\<rparr>"

definition pause :: "tracksQueue \<Rightarrow> tracksQueue" where
  "pause s = s\<lparr>ctrl_Paused := True\<rparr>"

definition paused :: "tracksQueue \<Rightarrow> bool" where
  "paused s = ctrl_Paused s"

text \<open>
  The search loop of \<open>removeTrack\<close>: \<open>i\<close> is the index of the head of the remaining
  tracks, and the result is the pair of \<open>trackIndex\<close> and \<open>prev\<close> when the loop ends.
\<close>

fun remove_loop :: "string \<Rightarrow> track list \<Rightarrow> int \<Rightarrow> int \<Rightarrow> int \<Rightarrow> int \<times> int" where
  "remove_loop trackName [] i trackIndex prev = (trackIndex, prev)"
| "remove_loop trackName (t # ts) i trackIndex prev =
     (if filepath_Base (path t) = trackName then (i, prev)
      else remove_loop trackName ts (i + 1) trackIndex i)"

definition slices_Delete :: "'a list \<Rightarrow> int \<Rightarrow> int \<Rightarrow> 'a list" where
  "slices_Delete xs i j = take (nat i) xs @ drop (nat j) xs"

definition removeTrack :: "tracksQueue \<Rightarrow> string \<Rightarrow> tracksQueue" where
  "removeTrack s trackName =
     (let (trackIndex, prev) = remove_loop trackName (queue s) 0 (- 1) 0
      in if trackIndex = - 1 then s
         else s\<lparr>currentTrack := prev,
                queue := slices_Delete (queue s) trackIndex (trackIndex + 1)\<rparr>)"

fun close_loop :: "track list \<Rightarrow> (ref \<Rightarrow> decoder) \<Rightarrow> panic + (ref \<Rightarrow> decoder)" where
  "close_loop [] h = Inr h"
| "close_loop (t # ts) h =
     (case stream t of
        None \<Rightarrow> Inl NilDereference
      | Some r \<Rightarrow> close_loop ts (h(r := Close (h r))))"

definition clear :: "tracksQueue \<Rightarrow> panic + tracksQueue" where
  "clear s =
     (case close_loop (queue s) (decoders s) of
        Inl p \<Rightarrow> Inl p
      | Inr h \<Rightarrow> Inr (s\<lparr>decoders := h, ctrl_Streamer := NilStreamer,
                        currentTrack := 0, queue := []\<rparr>))"

subsection \<open>Sequences of engine operations\<close>

datatype operation =
    Add track | Remove string | Next | Previous | Restart | RestartAll | Clear
  | ChangeVolume "64 word" | Pause | Unpause | Play

fun exec :: "operation \<Rightarrow> tracksQueue \<Rightarrow> panic + tracksQueue" where
  "exec (Add t) s = Inr (addTrack s t)"
| "exec (Remove n) s = Inr (removeTrack s n)"
| "exec Next s = nextTrack s"
| "exec Previous s = prevTrack s"
| "exec Restart s = restartCurrentTrack s"
| "exec RestartAll s = restartQueue s"
| "exec Clear s = clear s"
| "exec (ChangeVolume p) s = Inr (changeVolume s p)"
| "exec Pause s = Inr (pause s)"
| "exec Unpause s = Inr (unpause s)"
| "exec Play s = Inr (play s)"

fun run :: "operation list \<Rightarrow> tracksQueue \<Rightarrow> panic + tracksQueue" where
  "run [] s = Inr s"
| "run (x # xs) s = (case exec x s of Inl p \<Rightarrow> Inl p | Inr s1 \<Rightarrow> run xs s1)"

subsection \<open>The index invariant and example states\<close>

text \<open>
  The invariant of \<open>currentTrack\<close>: an index into the queue when the queue is non-empty,
  and 0 when it is empty.
\<close>

definition index_inv :: "tracksQueue \<Rightarrow> bool" where
  "index_inv s =
     (if queue s = [] then currentTrack s = 0
      else 0 \<le> currentTrack s \<and> currentTrack s < len s)"

text \<open>
  A track has been played to its end when its decoder's position equals its length. The
  invariant of the spec's data model: every track whose \<open>ended\<close> flag is set has been
  played to its end.
\<close>

definition fully_played :: "tracksQueue \<Rightarrow> track \<Rightarrow> bool" where
  "fully_played s t =
     (case stream t of
        None \<Rightarrow> False
      | Some r \<Rightarrow> Position (decoders s r) = Len (decoders s r))"

definition ended_inv :: "tracksQueue \<Rightarrow> bool" where
  "ended_inv s = (\<forall>t \<in> set (queue s). ended t \<longrightarrow> fully_played s t)"

text \<open>
  Concrete inputs: decoders that are 3 frames into a stream of 10, the track \<open>loadTrack\<close>
  returns for a file that decodes at a given sample rate, and a queue of two such tracks.
\<close>

definition example_decoders :: "ref \<Rightarrow> decoder" where
  "example_decoders = (\<lambda>r. \<lparr>d_pos = 3, d_len = 10, d_closed = False\<rparr>)"

definition example_track :: "string \<Rightarrow> ref \<Rightarrow> int \<Rightarrow> track" where
  "example_track p r rate =
     \<lparr>path = p, stream = Some r, resampled = Resampler 4 rate 44100 (Some r),
      format = \<lparr>SampleRate = rate, NumChannels = 2, Precision = 2\<rparr>, ended = False\<rparr>"

definition example_queue :: tracksQueue where
  "example_queue =
     addTrack (addTrack (newTrackQueue example_decoders) (example_track ''/music/a.mp3'' 1 44100))
              (example_track ''/music/b.mp3'' 2 48000)"

text \<open>
  Decoders that have been played to their end, and two environments for \<open>loadTrack\<close>:
  one where the file decodes at 48000 Hz, one where \<open>mp3.Decode\<close> fails.
\<close>

definition finished_decoders :: "ref \<Rightarrow> decoder" where
  "finished_decoders = (\<lambda>r. \<lparr>d_pos = 10, d_len = 10, d_closed = False\<rparr>)"

definition example_env :: env where
  "example_env =
     \<lparr>os_Open = (\<lambda>p. Inr 5), file_Stat = (\<lambda>f. Inr False),
      mp3_Decode = (\<lambda>f. Inr (2, \<lparr>SampleRate = 48000, NumChannels = 2, Precision = 2\<rparr>))\<rparr>"

definition broken_env :: env where
  "broken_env =
     \<lparr>os_Open = (\<lambda>p. Inr 5), file_Stat = (\<lambda>f. Inr False),
      mp3_Decode = (\<lambda>f. Inl (ExternalError ''mp3: unexpected EOF''))\<rparr>"

section \<open>Properties\<close>

subsection \<open>Projections of the helper methods\<close>

lemma rebuild_loop_eq:
  "rebuild_loop ts acc =
     acc @ map (\<lambda>t. Seq [resampled t, Callback ''f'']) (filter (\<lambda>t. \<not> ended t) ts)"
  by (induction ts arbitrary: acc) simp_all

lemma queue_rebuildStreamer [simp]: "queue (rebuildStreamer s) = queue s"
  and currentTrack_rebuildStreamer [simp]: "currentTrack (rebuildStreamer s) = currentTrack s"
  and decoders_rebuildStreamer [simp]: "decoders (rebuildStreamer s) = decoders s"
  by (simp_all add: rebuildStreamer_def)

lemma queue_speaker_Clear [simp]: "queue (speaker_Clear s) = queue s"
  and currentTrack_speaker_Clear [simp]: "currentTrack (speaker_Clear s) = currentTrack s"
  and decoders_speaker_Clear [simp]: "decoders (speaker_Clear s) = decoders s"
  by (simp_all add: speaker_Clear_def)

lemma queue_play [simp]: "queue (play s) = queue s"
  and currentTrack_play [simp]: "currentTrack (play s) = currentTrack s"
  and decoders_play [simp]: "decoders (play s) = decoders s"
  by (simp_all add: play_def Let_def speaker_Clear_def speaker_Play_def len_def)

lemma queue_changeVolume [simp]: "queue (changeVolume s p) = queue s"
  and currentTrack_changeVolume [simp]: "currentTrack (changeVolume s p) = currentTrack s"
  and decoders_changeVolume [simp]: "decoders (changeVolume s p) = decoders s"
  by (simp_all add: changeVolume_def Let_def speaker_Clear_def speaker_Play_def)

lemma set_ended_Inr:
  "set_ended s i b = Inr s' \<Longrightarrow>
     0 \<le> i \<and> i < len s \<and> s' = s\<lparr>queue := (queue s)[nat i := (queue s ! nat i)\<lparr>ended := b\<rparr>]\<rparr>"
  by (auto simp: set_ended_def split: if_splits)

subsection \<open>restartTrack and the loop of restartQueue\<close>

lemma restartTrack_Inr:
  assumes "restartTrack s index = Inr s'"
  shows "0 \<le> index \<and> index < len s \<and> currentTrack s' = currentTrack s
       \<and> (\<exists>r rs. stream (queue s ! nat index) = Some r
              \<and> decoders s' = (decoders s)(r := Seek (decoders s r) 0)
              \<and> queue s' = (queue s)[nat index :=
                             (queue s ! nat index)\<lparr>ended := False, resampled := rs\<rparr>])"
proof -
  from assms obtain s1 where s1: "set_ended s index False = Inr s1"
    by (auto simp: restartTrack_def split: sum.splits)
  from set_ended_Inr [OF s1] have rng: "0 \<le> index" "index < len s"
    and s1_eq: "s1 = s\<lparr>queue := (queue s)[nat index := (queue s ! nat index)\<lparr>ended := False\<rparr>]\<rparr>"
    by simp_all
  have i: "nat index < length (queue s)" using rng by (simp add: len_def)
  from assms s1 obtain r where r: "stream (queue s1 ! nat index) = Some r"
    by (auto simp: restartTrack_def Let_def split: sum.splits option.splits)
  have r': "stream (queue s ! nat index) = Some r" using r i by (simp add: s1_eq)
  show ?thesis
  proof (cases "Position (decoders s r) = Len (decoders s r)")
    case True
    with assms s1 r obtain rs where
      "s' = play (rebuildStreamer
                (s1\<lparr>decoders := (decoders s1)(r := Seek (decoders s1 r) 0),
                    queue := (queue s1)[nat index := (queue s1 ! nat index)\<lparr>resampled := rs\<rparr>]\<rparr>))"
      by (auto simp: restartTrack_def Let_def s1_eq split: sum.splits)
    then show ?thesis using rng r' i
      by (auto simp: s1_eq intro!: exI [of _ rs])
  next
    case False
    with assms s1 r have "s' = s1\<lparr>decoders := (decoders s1)(r := Seek (decoders s1 r) 0)\<rparr>"
      by (auto simp: restartTrack_def Let_def s1_eq split: sum.splits)
    then show ?thesis using rng r' i
      by (auto simp: s1_eq intro!: exI [of _ "resampled (queue s ! nat index)"])
  qed
qed

lemma restartTrack_not_oob:
  "0 \<le> index \<Longrightarrow> index < len s \<Longrightarrow> restartTrack s index \<noteq> Inl IndexOutOfRange"
  by (auto simp: restartTrack_def set_ended_def Let_def Resample_def basicSampleRate_def
           split: sum.splits option.splits if_splits)

lemma restartTrack_length:
  "restartTrack s index = Inr s' \<Longrightarrow> length (queue s') = length (queue s)"
  by (drule restartTrack_Inr) auto

lemma restartTrack_currentTrack:
  "restartTrack s index = Inr s' \<Longrightarrow> currentTrack s' = currentTrack s"
  by (drule restartTrack_Inr) auto

lemma restart_loop_not_oob:
  "\<forall>i \<in> set is. i < length (queue s) \<Longrightarrow> restart_loop is s \<noteq> Inl IndexOutOfRange"
proof (induction "is" arbitrary: s)
  case Nil
  then show ?case by simp
next
  case (Cons i "is")
  show ?case
  proof (cases "restartTrack s (int i)")
    case (Inl p)
    moreover have "restartTrack s (int i) \<noteq> Inl IndexOutOfRange"
      using Cons.prems by (intro restartTrack_not_oob) (simp_all add: len_def)
    ultimately show ?thesis by auto
  next
    case (Inr s1)
    then have "length (queue s1) = length (queue s)" by (rule restartTrack_length)
    with Cons.prems have "\<forall>i \<in> set is. i < length (queue s1)" by simp
    from Cons.IH [OF this] Inr show ?thesis by simp
  qed
qed

lemma restart_loop_Inr:
  "restart_loop is s = Inr s' \<Longrightarrow>
     length (queue s') = length (queue s) \<and> currentTrack s' = currentTrack s"
proof (induction "is" arbitrary: s)
  case Nil
  then show ?case by simp
next
  case (Cons i "is")
  then obtain s1 where s1: "restartTrack s (int i) = Inr s1" and rest: "restart_loop is s1 = Inr s'"
    by (auto split: sum.splits)
  from Cons.IH [OF rest] restartTrack_length [OF s1] restartTrack_currentTrack [OF s1]
  show ?case by simp
qed


subsection \<open>Signed words\<close>

lemma word_eq_neg100: "(w :: 64 word) = - 100 \<longleftrightarrow> sint w = - 100"
proof -
  have "sint (- 100 :: 64 word) = - 100" by simp
  then show ?thesis by (metis word_eq_iff_signed)
qed

subsection \<open>The search loop of removeTrack\<close>

lemma remove_loop_no_match:
  "\<forall>t \<in> set ts. filepath_Base (path t) \<noteq> trackName \<Longrightarrow>
     fst (remove_loop trackName ts i trackIndex prev) = trackIndex"
  by (induction ts arbitrary: i prev) simp_all

lemma remove_loop_match:
  "k < length ts \<Longrightarrow> filepath_Base (path (ts ! k)) = trackName \<Longrightarrow>
   \<forall>j < k. filepath_Base (path (ts ! j)) \<noteq> trackName \<Longrightarrow>
     remove_loop trackName ts i trackIndex prev =
       (i + int k, if k = 0 then prev else i + int k - 1)"
proof (induction ts arbitrary: i prev k)
  case Nil
  then show ?case by simp
next
  case (Cons t ts)
  show ?case
  proof (cases k)
    case 0
    with Cons.prems show ?thesis by simp
  next
    case (Suc k')
    from Cons.prems(3) Suc have t: "filepath_Base (path t) \<noteq> trackName" by auto
    have 1: "k' < length ts" using Cons.prems(1) Suc by simp
    have 2: "filepath_Base (path (ts ! k')) = trackName" using Cons.prems(2) Suc by simp
    have 3: "\<forall>j < k'. filepath_Base (path (ts ! j)) \<noteq> trackName"
      using Cons.prems(3) Suc by auto
    from Cons.IH [OF 1 2 3, of "i + 1" i] t Suc show ?thesis by auto
  qed
qed

lemma first_match_exists:
  "\<exists>t \<in> set ts. P t \<Longrightarrow> \<exists>k < length ts. P (ts ! k) \<and> (\<forall>j < k. \<not> P (ts ! j))"
proof (induction ts)
  case Nil
  then show ?case by simp
next
  case (Cons t ts)
  show ?case
  proof (cases "P t")
    case True
    then show ?thesis by (intro exI [of _ 0]) simp
  next
    case False
    with Cons.prems have "\<exists>t \<in> set ts. P t" by simp
    from Cons.IH [OF this] obtain k where k: "k < length ts" "P (ts ! k)" "\<forall>j < k. \<not> P (ts ! j)"
      by blast
    show ?thesis
    proof (intro exI [of _ "Suc k"] conjI allI impI)
      show "Suc k < length (t # ts)" using k by simp
      show "P ((t # ts) ! Suc k)" using k by simp
      fix j assume "j < Suc k"
      then show "\<not> P ((t # ts) ! j)" using k False by (cases j) auto
    qed
  qed
qed

lemma removeTrack_no_match:
  "\<forall>t \<in> set (queue s). filepath_Base (path t) \<noteq> trackName \<Longrightarrow> removeTrack s trackName = s"
  using remove_loop_no_match [of "queue s" trackName 0 "- 1" 0]
  by (auto simp: removeTrack_def split: prod.splits)

lemma removeTrack_match:
  assumes "k < length (queue s)" and "filepath_Base (path (queue s ! k)) = trackName"
      and "\<forall>j < k. filepath_Base (path (queue s ! j)) \<noteq> trackName"
  shows "removeTrack s trackName =
           s\<lparr>currentTrack := (if k = 0 then 0 else int k - 1),
             queue := take k (queue s) @ drop (Suc k) (queue s)\<rparr>"
  using remove_loop_match [OF assms, of 0 "- 1" 0]
  by (simp add: removeTrack_def slices_Delete_def nat_add_distrib)

subsection \<open>Every operation keeps the index invariant\<close>

lemma index_inv_newTrackQueue: "index_inv (newTrackQueue h)"
  by (simp add: index_inv_def newTrackQueue_def)

lemma index_inv_addTrack: "index_inv s \<Longrightarrow> index_inv (addTrack s t)"
  by (auto simp: index_inv_def addTrack_def len_def split: if_splits)

lemma index_inv_removeTrack:
  assumes "index_inv s"
  shows "index_inv (removeTrack s trackName)"
proof (cases "\<exists>t \<in> set (queue s). filepath_Base (path t) = trackName")
  case False
  then show ?thesis using assms by (simp add: removeTrack_no_match)
next
  case True
  from first_match_exists [of "queue s" "\<lambda>t. filepath_Base (path t) = trackName", OF True]
  obtain k where k: "k < length (queue s)" "filepath_Base (path (queue s ! k)) = trackName"
    "\<forall>j < k. filepath_Base (path (queue s ! j)) \<noteq> trackName"
    by blast
  show ?thesis
    using k(1) by (auto simp: removeTrack_match [OF k] index_inv_def len_def)
qed

lemma nextTrack_index:
  assumes "index_inv s"
  shows "nextTrack s \<noteq> Inl IndexOutOfRange"
    and "nextTrack s = Inr s' \<Longrightarrow>
           index_inv s' \<and> (currentTrack s' = currentTrack s \<or> currentTrack s' = currentTrack s + 1)"
  using assms
  by (auto simp: index_inv_def nextTrack_def set_ended_def len_def split: if_splits)

lemma prevTrack_index:
  assumes "index_inv s"
  shows "prevTrack s \<noteq> Inl IndexOutOfRange"
    and "prevTrack s = Inr s' \<Longrightarrow>
           index_inv s' \<and> (currentTrack s' = currentTrack s \<or> currentTrack s' = currentTrack s - 1)"
  using assms
  by (auto simp: index_inv_def prevTrack_def set_ended_def len_def Let_def split: if_splits)

lemma index_inv_cong:
  "length (queue s') = length (queue s) \<Longrightarrow> currentTrack s' = currentTrack s \<Longrightarrow>
     index_inv s \<Longrightarrow> index_inv s'"
  by (auto simp: index_inv_def len_def split: if_splits)

lemma restartCurrentTrack_index:
  assumes "index_inv s"
  shows "restartCurrentTrack s \<noteq> Inl IndexOutOfRange"
    and "restartCurrentTrack s = Inr s' \<Longrightarrow> index_inv s' \<and> currentTrack s' = currentTrack s"
proof -
  show "restartCurrentTrack s \<noteq> Inl IndexOutOfRange"
  proof (cases "len s = 0")
    case True
    then show ?thesis by (simp add: restartCurrentTrack_def)
  next
    case False
    with assms have "0 \<le> currentTrack s" "currentTrack s < len s"
      by (auto simp: index_inv_def len_def split: if_splits)
    from restartTrack_not_oob [OF this] False show ?thesis
      by (simp add: restartCurrentTrack_def)
  qed
  assume r: "restartCurrentTrack s = Inr s'"
  show "index_inv s' \<and> currentTrack s' = currentTrack s"
  proof (cases "len s = 0")
    case True
    with r assms show ?thesis by (simp add: restartCurrentTrack_def)
  next
    case False
    with r have rt: "restartTrack s (currentTrack s) = Inr s'"
      by (simp add: restartCurrentTrack_def)
    from index_inv_cong [OF restartTrack_length [OF rt] restartTrack_currentTrack [OF rt] assms]
         restartTrack_currentTrack [OF rt]
    show ?thesis by simp
  qed
qed

lemma restartQueue_index:
  shows "restartQueue s \<noteq> Inl IndexOutOfRange"
    and "restartQueue s = Inr s' \<Longrightarrow> index_inv s'"
proof -
  have "restart_loop [0 ..< length (queue s)] s \<noteq> Inl IndexOutOfRange"
    by (rule restart_loop_not_oob) simp
  then show "restartQueue s \<noteq> Inl IndexOutOfRange"
    by (auto simp: restartQueue_def split: sum.splits)
  assume "restartQueue s = Inr s'"
  then obtain s1 where s1: "restart_loop [0 ..< length (queue s)] s = Inr s1"
    and s': "s' = rebuildStreamer (s1\<lparr>currentTrack := 0\<rparr>)"
    by (auto simp: restartQueue_def split: sum.splits)
  show "index_inv s'"
    by (auto simp: s' index_inv_def len_def)
qed

lemma close_loop_not_oob: "close_loop ts h \<noteq> Inl IndexOutOfRange"
  by (induction ts arbitrary: h) (auto split: option.splits)

lemma clear_index:
  shows "clear s \<noteq> Inl IndexOutOfRange"
    and "clear s = Inr s' \<Longrightarrow> index_inv s'"
  using close_loop_not_oob [of "queue s" "decoders s"]
  by (auto simp: clear_def index_inv_def split: sum.splits)

lemma exec_index:
  assumes "index_inv s"
  shows "exec x s \<noteq> Inl IndexOutOfRange \<and> (\<forall>s'. exec x s = Inr s' \<longrightarrow> index_inv s')"
proof (cases x)
  case (Add t)
  then show ?thesis using assms by (simp add: index_inv_addTrack)
next
  case (Remove n)
  then show ?thesis using assms by (simp add: index_inv_removeTrack)
next
  case Next
  then show ?thesis using nextTrack_index [OF assms] by auto
next
  case Previous
  then show ?thesis using prevTrack_index [OF assms] by auto
next
  case Restart
  then show ?thesis using restartCurrentTrack_index [OF assms] by auto
next
  case RestartAll
  then show ?thesis using restartQueue_index [of s] by auto
next
  case Clear
  then show ?thesis using clear_index [of s] by auto
next
  case (ChangeVolume p)
  then show ?thesis using assms
    by (auto intro: index_inv_cong [of "changeVolume s p" s])
next
  case Pause
  then show ?thesis using assms by (auto simp: pause_def index_inv_def len_def)
next
  case Unpause
  then show ?thesis using assms by (auto simp: unpause_def index_inv_def len_def)
next
  case Play
  then show ?thesis using assms by (auto intro: index_inv_cong [of "play s" s])
qed

lemma run_index:
  "index_inv s \<Longrightarrow>
     run ops s \<noteq> Inl IndexOutOfRange \<and> (\<forall>s'. run ops s = Inr s' \<longrightarrow> index_inv s')"
proof (induction ops arbitrary: s)
  case Nil
  then show ?case by simp
next
  case (Cons x xs)
  from exec_index [OF Cons.prems, of x]
  have e: "exec x s \<noteq> Inl IndexOutOfRange" "\<And>s1. exec x s = Inr s1 \<Longrightarrow> index_inv s1"
    by auto
  show ?case
  proof (cases "exec x s")
    case (Inl p)
    with e(1) show ?thesis by auto
  next
    case (Inr s1)
    from Cons.IH [OF e(2) [OF Inr]] Inr show ?thesis by simp
  qed
qed

lemma getCurrentTrack_index:
  "index_inv s \<Longrightarrow>
     getCurrentTrack s =
       (if queue s = [] then Inr (track_zero, False)
        else Inr (queue s ! nat (currentTrack s), True))"
  by (auto simp: getCurrentTrack_def index_inv_def len_def split: if_splits)

subsection \<open>Operations and the ended flag\<close>

lemma fully_played_cong:
  "decoders s' = decoders s \<Longrightarrow> fully_played s' t = fully_played s t"
  by (simp add: fully_played_def split: option.splits)

lemma fully_played_ended [simp]: "fully_played s (t\<lparr>ended := b\<rparr>) = fully_played s t"
  by (simp add: fully_played_def)

lemma ended_inv_cong:
  "queue s' = queue s \<Longrightarrow> decoders s' = decoders s \<Longrightarrow> ended_inv s' = ended_inv s"
  by (simp add: ended_inv_def fully_played_cong [of s' s])

lemma map_update_same: "(map f ts)[i := f (ts ! i)] = map f ts"
  by (cases "i < length ts") (simp_all add: list_update_same_conv list_update_beyond)

lemma map_stream_update_ended [simp]:
  "map stream (ts[i := (ts ! i)\<lparr>ended := b\<rparr>]) = map stream ts"
  by (simp add: map_update map_update_same)

lemma ended_inv_set_ended:
  assumes "ended_inv s" and "i < length (queue s)"
      and "b \<longrightarrow> fully_played s (queue s ! i)"
      and "queue s' = (queue s)[i := (queue s ! i)\<lparr>ended := b\<rparr>]"
      and "decoders s' = decoders s"
  shows "ended_inv s'"
  unfolding ended_inv_def
proof (intro ballI impI)
  fix t assume t: "t \<in> set (queue s')" and e: "ended t"
  from t assms(4) have "t = (queue s ! i)\<lparr>ended := b\<rparr> \<or> t \<in> set (queue s)"
    using set_update_subset_insert [of "queue s" i "(queue s ! i)\<lparr>ended := b\<rparr>"] by auto
  then show "fully_played s' t"
  proof
    assume eq: "t = (queue s ! i)\<lparr>ended := b\<rparr>"
    with e have b by simp
    with assms(3) eq show ?thesis by (simp add: fully_played_cong [OF assms(5)])
  next
    assume "t \<in> set (queue s)"
    with e assms(1) show ?thesis by (simp add: ended_inv_def fully_played_cong [OF assms(5)])
  qed
qed

lemma restartTrack_ended_inv:
  assumes inv: "ended_inv s" and dist: "distinct (map stream (queue s))"
      and rt: "restartTrack s index = Inr s'"
  shows "ended_inv s' \<and> distinct (map stream (queue s'))"
proof -
  from restartTrack_Inr [OF rt] obtain r rs where
    rng: "0 \<le> index" "index < len s"
    and r: "stream (queue s ! nat index) = Some r"
    and d: "decoders s' = (decoders s)(r := Seek (decoders s r) 0)"
    and q: "queue s' = (queue s)[nat index := (queue s ! nat index)\<lparr>ended := False, resampled := rs\<rparr>]"
    by blast
  let ?i = "nat index"
  have i: "?i < length (queue s)" using rng by (simp add: len_def)
  have ms: "map stream (queue s') = map stream (queue s)"
    by (simp add: q map_update map_update_same)
  have "ended_inv s'"
    unfolding ended_inv_def
  proof (intro ballI impI)
    fix t assume t: "t \<in> set (queue s')" and e: "ended t"
    from t obtain j where j: "j < length (queue s')" "t = queue s' ! j"
      by (auto simp: in_set_conv_nth)
    have jl: "j < length (queue s)" using j(1) by (simp add: q)
    have ji: "j \<noteq> ?i"
    proof
      assume "j = ?i"
      with j i have "t = (queue s ! ?i)\<lparr>ended := False, resampled := rs\<rparr>" by (simp add: q)
      with e show False by simp
    qed
    then have tq: "t = queue s ! j" using j by (simp add: q)
    then have "t \<in> set (queue s)" using jl by simp
    with inv e have fp: "fully_played s t" by (simp add: ended_inv_def)
    from dist ji jl i have "map stream (queue s) ! j \<noteq> map stream (queue s) ! ?i"
      by (simp add: nth_eq_iff_index_eq del: nth_map)
    then have "stream t \<noteq> Some r" using jl i r tq by simp
    with fp show "fully_played s' t"
      by (auto simp: fully_played_def d split: option.splits)
  qed
  with dist ms show ?thesis by simp
qed

lemma restart_loop_ended_inv:
  "ended_inv s \<Longrightarrow> distinct (map stream (queue s)) \<Longrightarrow> restart_loop is s = Inr s' \<Longrightarrow>
     ended_inv s' \<and> distinct (map stream (queue s'))"
proof (induction "is" arbitrary: s)
  case Nil
  then show ?case by simp
next
  case (Cons i "is")
  from Cons.prems(3) obtain s1 where s1: "restartTrack s (int i) = Inr s1"
    and rest: "restart_loop is s1 = Inr s'"
    by (auto split: sum.splits)
  from restartTrack_ended_inv [OF Cons.prems(1,2) s1]
  have "ended_inv s1" "distinct (map stream (queue s1))" by simp_all
  from Cons.IH [OF this rest] show ?case .
qed

lemma distinct_map_remove_nth:
  assumes "distinct (map f xs)"
  shows "distinct (map f (take k xs @ drop (Suc k) xs))"
proof -
  let ?ys = "map f xs"
  have "set (take k ?ys) \<inter> set (drop (Suc k) ?ys) = {}"
    using assms by (rule set_take_disj_set_drop_if_distinct) simp
  then have "distinct (take k ?ys @ drop (Suc k) ?ys)"
    using assms by simp
  then show ?thesis by (simp add: take_map drop_map)
qed

lemma ended_inv_subset:
  assumes "ended_inv s" and "set (queue s') \<subseteq> set (queue s)" and "decoders s' = decoders s"
  shows "ended_inv s'"
  unfolding ended_inv_def
proof (intro ballI impI)
  fix t assume "t \<in> set (queue s')" and e: "ended t"
  with assms(2) have "t \<in> set (queue s)" by auto
  with assms(1) e have "fully_played s t" by (simp add: ended_inv_def)
  then show "fully_played s' t" by (simp add: fully_played_cong [OF assms(3)])
qed

lemma removeTrack_ended_inv:
  assumes "ended_inv s" and "distinct (map stream (queue s))"
  shows "ended_inv (removeTrack s trackName)
       \<and> distinct (map stream (queue (removeTrack s trackName)))"
proof (cases "\<exists>t \<in> set (queue s). filepath_Base (path t) = trackName")
  case False
  then show ?thesis using assms by (simp add: removeTrack_no_match)
next
  case True
  from first_match_exists [of "queue s" "\<lambda>t. filepath_Base (path t) = trackName", OF True]
  obtain k where k: "k < length (queue s)" "filepath_Base (path (queue s ! k)) = trackName"
    "\<forall>j < k. filepath_Base (path (queue s ! j)) \<noteq> trackName"
    by blast
  have sub: "set (take k (queue s) @ drop (Suc k) (queue s)) \<subseteq> set (queue s)"
    using set_take_subset [of k "queue s"] set_drop_subset [of "Suc k" "queue s"] by auto
  have "ended_inv (removeTrack s trackName)"
    by (rule ended_inv_subset [OF assms(1)]) (use sub in \<open>simp_all add: removeTrack_match [OF k]\<close>)
  moreover have "distinct (map stream (queue (removeTrack s trackName)))"
    using distinct_map_remove_nth [OF assms(2), of k]
    by (simp add: removeTrack_match [OF k])
  ultimately show ?thesis by simp
qed

lemma nextTrack_Inr:
  "nextTrack s = Inr s' \<Longrightarrow>
     decoders s' = decoders s
     \<and> (queue s' = queue s \<and> queue s = []
        \<or> 0 \<le> currentTrack s \<and> currentTrack s < len s
          \<and> queue s' = (queue s)[nat (currentTrack s) :=
                           (queue s ! nat (currentTrack s))\<lparr>ended := True\<rparr>])"
  by (auto simp: nextTrack_def set_ended_def len_def split: if_splits)

lemma prevTrack_Inr:
  "prevTrack s = Inr s' \<Longrightarrow>
     decoders s' = decoders s
     \<and> (queue s' = queue s
        \<or> 0 \<le> currentTrack s - 1 \<and> currentTrack s - 1 < len s
          \<and> queue s' = (queue s)[nat (currentTrack s - 1) :=
                           (queue s ! nat (currentTrack s - 1))\<lparr>ended := False\<rparr>])"
  by (auto simp: prevTrack_def set_ended_def len_def Let_def split: if_splits)

lemma nextTrack_ended_inv:
  assumes "ended_inv s"
      and "nextTrack s = Inr s'"
      and "queue s \<noteq> [] \<longrightarrow> fully_played s (queue s ! nat (currentTrack s))"
  shows "ended_inv s' \<and> map stream (queue s') = map stream (queue s)"
proof -
  from nextTrack_Inr [OF assms(2)] have d: "decoders s' = decoders s"
    and c: "queue s' = queue s \<and> queue s = []
        \<or> 0 \<le> currentTrack s \<and> currentTrack s < len s
          \<and> queue s' = (queue s)[nat (currentTrack s) :=
                           (queue s ! nat (currentTrack s))\<lparr>ended := True\<rparr>]"
    by simp_all
  from c show ?thesis
  proof
    assume "queue s' = queue s \<and> queue s = []"
    then show ?thesis by (simp add: ended_inv_def)
  next
    assume a: "0 \<le> currentTrack s \<and> currentTrack s < len s
          \<and> queue s' = (queue s)[nat (currentTrack s) :=
                           (queue s ! nat (currentTrack s))\<lparr>ended := True\<rparr>]"
    then have "0 \<le> currentTrack s" "currentTrack s < len s" by blast+
    then have i: "nat (currentTrack s) < length (queue s)" by (simp add: len_def)
    then have ne: "queue s \<noteq> []" by auto
    from a have q: "queue s' = (queue s)[nat (currentTrack s) :=
                           (queue s ! nat (currentTrack s))\<lparr>ended := True\<rparr>]" by blast
    have fp: "True \<longrightarrow> fully_played s (queue s ! nat (currentTrack s))"
      using assms(3) ne by simp
    have "ended_inv s'"
      by (rule ended_inv_set_ended [OF assms(1) i fp q d])
    then show ?thesis by (simp add: q)
  qed
qed

lemma prevTrack_ended_inv:
  assumes "ended_inv s" and "prevTrack s = Inr s'"
  shows "ended_inv s' \<and> map stream (queue s') = map stream (queue s)"
proof -
  from prevTrack_Inr [OF assms(2)] have d: "decoders s' = decoders s"
    and c: "queue s' = queue s
        \<or> 0 \<le> currentTrack s - 1 \<and> currentTrack s - 1 < len s
          \<and> queue s' = (queue s)[nat (currentTrack s - 1) :=
                           (queue s ! nat (currentTrack s - 1))\<lparr>ended := False\<rparr>]"
    by simp_all
  from c show ?thesis
  proof
    assume q: "queue s' = queue s"
    with assms(1) ended_inv_cong [OF q d] show ?thesis by simp
  next
    assume a: "0 \<le> currentTrack s - 1 \<and> currentTrack s - 1 < len s
          \<and> queue s' = (queue s)[nat (currentTrack s - 1) :=
                           (queue s ! nat (currentTrack s - 1))\<lparr>ended := False\<rparr>]"
    then have "0 \<le> currentTrack s - 1" "currentTrack s - 1 < len s" by blast+
    then have i: "nat (currentTrack s - 1) < length (queue s)" by (simp add: len_def)
    from a have q: "queue s' = (queue s)[nat (currentTrack s - 1) :=
                           (queue s ! nat (currentTrack s - 1))\<lparr>ended := False\<rparr>]" by blast
    have fp: "False \<longrightarrow> fully_played s (queue s ! nat (currentTrack s - 1))" by simp
    have "ended_inv s'"
      by (rule ended_inv_set_ended [OF assms(1) i fp q d])
    then show ?thesis by (simp add: q)
  qed
qed

subsection \<open>loadTrack when the decoder fails\<close>

text \<open>
  Whenever \<open>loadTrack\<close> reaches \<open>mp3.Decode\<close> and decoding fails, the resampler is built
  from the zero format before the error is looked at, and its constructor panics.
\<close>

lemma loadTrack_decode_failure:
  assumes "(let ext = filepath_Ext trackPath in if ext \<noteq> [] then tl ext else ext)
             \<in> set supportedFormats"
      and "os_Open e trackPath = Inr f"
      and "file_Stat e f = Inr False"
      and "mp3_Decode e f = Inl err"
  shows "loadTrack e trackPath = Inl ResampleInvalidRatio"
  using assms
  by (simp add: loadTrack_def Let_def Resample_def Format_zero_def basicSampleRate_def)

section \<open>The claims\<close>

subsection \<open>C2: nextTrack\<close>

text \<open>
  Claim C2. In a queue state whose index satisfies the invariant: on an empty queue
  \<open>nextTrack\<close> returns the state unchanged; when \<open>currentTrack\<close> is the last index it sets
  the \<open>ended\<close> flag of that track and changes nothing else, so \<open>currentTrack\<close> stays; at any
  other index it sets the \<open>ended\<close> flag at the old index and \<open>currentTrack\<close> grows by
  exactly 1.
\<close>

theorem nextTrack_spec:
  assumes "index_inv s"
  shows "(queue s = [] \<longrightarrow> nextTrack s = Inr s)
       \<and> (queue s \<noteq> [] \<and> currentTrack s = len s - 1 \<longrightarrow>
            nextTrack s =
              Inr (s\<lparr>queue := (queue s)[nat (currentTrack s) :=
                                 (queue s ! nat (currentTrack s))\<lparr>ended := True\<rparr>]\<rparr>))
       \<and> (queue s \<noteq> [] \<and> currentTrack s \<noteq> len s - 1 \<longrightarrow>
            (\<exists>s'. nextTrack s = Inr s'
                \<and> currentTrack s' = currentTrack s + 1
                \<and> queue s' = (queue s)[nat (currentTrack s) :=
                                 (queue s ! nat (currentTrack s))\<lparr>ended := True\<rparr>]
                \<and> ended (queue s' ! nat (currentTrack s))))"
  using assms
  by (auto simp: index_inv_def nextTrack_def set_ended_def len_def split: if_splits)

theorem nextTrack_spec_witness:
  "index_inv example_queue
   \<and> (\<exists>s'. nextTrack example_queue = Inr s' \<and> currentTrack s' = 1 \<and> ended (queue s' ! 0))
   \<and> nextTrack (example_queue\<lparr>currentTrack := 1\<rparr>) =
       Inr (example_queue\<lparr>currentTrack := 1,
              queue := [example_track ''/music/a.mp3'' 1 44100,
                        (example_track ''/music/b.mp3'' 2 48000)\<lparr>ended := True\<rparr>]\<rparr>)
   \<and> nextTrack (newTrackQueue example_decoders) = Inr (newTrackQueue example_decoders)"
proof -
  have q: "queue example_queue =
             [example_track ''/music/a.mp3'' 1 44100, example_track ''/music/b.mp3'' 2 48000]"
    and c: "currentTrack example_queue = 0"
    by (simp_all add: example_queue_def addTrack_def newTrackQueue_def)
  have h1: "index_inv example_queue"
    by (simp add: index_inv_def q c len_def)
  have h2: "index_inv (example_queue\<lparr>currentTrack := 1\<rparr>)"
    by (simp add: index_inv_def q len_def)
  have h3: "index_inv (newTrackQueue example_decoders)"
    by (simp add: index_inv_def newTrackQueue_def)
  show ?thesis
    using h1 nextTrack_spec [OF h1] nextTrack_spec [OF h2] nextTrack_spec [OF h3]
    by (auto simp: q c len_def newTrackQueue_def)
qed

subsection \<open>C1: rebuildStreamer\<close>

text \<open>
  Claim C1. In every queue state, the streamer that \<open>rebuildStreamer\<close> installs is the
  sequence, in queue order, of the tracks whose \<open>ended\<close> flag is false, each as its
  resampled view followed by one callback that sends the end-of-track message; tracks with
  \<open>ended\<close> set do not occur in it. Drained from left to right it emits, for each such
  track in turn, the track's samples and then one notification. \<open>addTrack\<close> installs this
  streamer for the queue extended by the new track.
\<close>

theorem rebuildStreamer_spec:
  "ctrl_Streamer (rebuildStreamer s) =
     Seq (map (\<lambda>t. Seq [resampled t, Callback ''f'']) (filter (\<lambda>t. \<not> ended t) (queue s)))
   \<and> emissions (ctrl_Streamer (rebuildStreamer s)) =
     concat (map (\<lambda>t. emissions (resampled t) @ [Notify ''f''])
                 (filter (\<lambda>t. \<not> ended t) (queue s)))
   \<and> ctrl_Streamer (addTrack s t) =
     Seq (map (\<lambda>t. Seq [resampled t, Callback ''f''])
              (filter (\<lambda>t. \<not> ended t) (queue s @ [t])))"
  by (simp add: rebuildStreamer_def addTrack_def rebuild_loop_eq comp_def)

theorem rebuildStreamer_spec_witness:
  "emissions (ctrl_Streamer (rebuildStreamer
      (example_queue\<lparr>queue := [(example_track ''/music/a.mp3'' 1 44100)\<lparr>ended := True\<rparr>,
                              example_track ''/music/b.mp3'' 2 48000,
                              example_track ''/music/c.mp3'' 3 44100]\<rparr>))) =
     [Samples 4 48000 44100 (Some 2), Notify ''f'', Samples 4 44100 44100 (Some 3), Notify ''f'']"
  using rebuildStreamer_spec
          [of "example_queue\<lparr>queue := [(example_track ''/music/a.mp3'' 1 44100)\<lparr>ended := True\<rparr>,
                              example_track ''/music/b.mp3'' 2 48000,
                              example_track ''/music/c.mp3'' 3 44100]\<rparr>"]
  by (simp add: example_track_def)

subsection \<open>C4: changeVolume\<close>

text \<open>
  Claim C4. With \<open>d\<close> the current deviation and \<open>d + delta\<close> computed as Go computes it
  (64-bit two's complement), \<open>changeVolume\<close> returns the state unchanged when
  \<open>d + delta < -100\<close>; otherwise it stores \<open>d + delta\<close> as the new deviation, sets
  \<open>Silent\<close> to true exactly when the new deviation is \<open>-100\<close>, sets the gain to
  \<open>log10(100 + (d + delta)) - 2\<close> (minus infinity at \<open>-100\<close>, where the logarithm is
  taken of 0), and restarts the speaker with the volume stage. When the mathematical sum
  fits into 64 bits, Go's sum is that sum.
\<close>

theorem changeVolume_spec:
  "changeVolume s delta =
     (if sint (volumeChange s + delta) < - 100 then s
      else s\<lparr>volumeChange := volumeChange s + delta,
             volume_Silent := (sint (volumeChange s + delta) = - 100),
             volume_Volume :=
               (if sint (volumeChange s + delta) = - 100 then NInf
                else Fin (log 10 (100 + real_of_int (sint (volumeChange s + delta))) - 2)),
             speaker_playing := 1\<rparr>)
   \<and> (- (2 ^ 63) \<le> sint (volumeChange s) + sint delta
        \<and> sint (volumeChange s) + sint delta < 2 ^ 63
      \<longrightarrow> sint (volumeChange s + delta) = sint (volumeChange s) + sint delta)"
proof
  show "changeVolume s delta =
     (if sint (volumeChange s + delta) < - 100 then s
      else s\<lparr>volumeChange := volumeChange s + delta,
             volume_Silent := (sint (volumeChange s + delta) = - 100),
             volume_Volume :=
               (if sint (volumeChange s + delta) = - 100 then NInf
                else Fin (log 10 (100 + real_of_int (sint (volumeChange s + delta))) - 2)),
             speaker_playing := 1\<rparr>)"
  proof (cases "sint (volumeChange s + delta) < - 100")
    case True
    then show ?thesis by (simp add: changeVolume_def)
  next
    case False
    then have ge: "- 100 \<le> sint (volumeChange s + delta)" by simp
    show ?thesis
    proof (cases "sint (volumeChange s + delta) = - 100")
      case True
      then have "real_of_int (sint (volumeChange s + delta)) = - 100" by simp
      then have "(signed (volumeChange s + delta) :: real) = - 100" by simp
      with True show ?thesis
        by (simp add: changeVolume_def Let_def word_eq_neg100 f64_of_int_def f64_sub_def
                      speaker_Clear_def speaker_Play_def)
    next
      case neq: False
      with ge have "0 < 100 + real_of_int (sint (volumeChange s + delta))" by linarith
      then have "0 < 100 + (signed (volumeChange s + delta) :: real)" by simp
      with neq False show ?thesis
        by (simp add: changeVolume_def Let_def word_eq_neg100 f64_of_int_def f64_sub_def
                      speaker_Clear_def speaker_Play_def)
    qed
  qed
next
  show "- (2 ^ 63) \<le> sint (volumeChange s) + sint delta
        \<and> sint (volumeChange s) + sint delta < 2 ^ 63
      \<longrightarrow> sint (volumeChange s + delta) = sint (volumeChange s) + sint delta"
    by (simp add: sint_word_ariths signed_take_bit_int_eq_self)
qed

theorem changeVolume_spec_witness:
  "changeVolume (newTrackQueue example_decoders) (- 110) = newTrackQueue example_decoders
   \<and> volumeChange (changeVolume (newTrackQueue example_decoders) (- 100)) = - 100
   \<and> volume_Silent (changeVolume (newTrackQueue example_decoders) (- 100))
   \<and> volume_Volume (changeVolume (newTrackQueue example_decoders) (- 100)) = NInf
   \<and> \<not> volume_Silent (changeVolume (newTrackQueue example_decoders) (- 10))
   \<and> volume_Volume (changeVolume (newTrackQueue example_decoders) (- 10)) = Fin (log 10 90 - 2)
   \<and> sint (volumeChange (newTrackQueue example_decoders) + (- 10)) = - 10"
  using changeVolume_spec [of "newTrackQueue example_decoders" "- 110"]
        changeVolume_spec [of "newTrackQueue example_decoders" "- 100"]
        changeVolume_spec [of "newTrackQueue example_decoders" "- 10"]
  by (simp add: newTrackQueue_def)

subsection \<open>C5: restartTrack on a track that has not been played to its end\<close>

text \<open>
  Claim C5, as stated, fails: \<open>restartTrack\<close> seeks the decoder to offset 0 before it
  looks at whether the track had been played to its end. In the example queue the first
  track's decoder stands at frame 3 of 10; after \<open>restartTrack\<close> it stands at frame 0, so
  the state is not the old state with only the \<open>ended\<close> flag cleared.
\<close>

theorem restartTrack_seek_counterexample:
  "Position (decoders example_queue 1) \<noteq> Len (decoders example_queue 1)
   \<and> restartTrack example_queue 0 \<noteq>
       Inr (example_queue\<lparr>queue := (queue example_queue)[0 :=
                                      (queue example_queue ! 0)\<lparr>ended := False\<rparr>]\<rparr>)
   \<and> restartTrack example_queue 0 =
       Inr (example_queue\<lparr>decoders := (decoders example_queue)
                             (1 := \<lparr>d_pos = 0, d_len = 10, d_closed = False\<rparr>)\<rparr>)"
proof -
  have q: "queue example_queue =
             [example_track ''/music/a.mp3'' 1 44100, example_track ''/music/b.mp3'' 2 48000]"
    and d: "decoders example_queue = example_decoders"
    by (simp_all add: example_queue_def addTrack_def newTrackQueue_def)
  have r: "restartTrack example_queue 0 =
       Inr (example_queue\<lparr>decoders := (decoders example_queue)
                             (1 := \<lparr>d_pos = 0, d_len = 10, d_closed = False\<rparr>)\<rparr>)"
    by (simp add: restartTrack_def set_ended_def Let_def len_def q d example_track_def
                  example_decoders_def Position_def Len_def Seek_def)
  have n: "example_queue\<lparr>decoders := (decoders example_queue)
                             (1 := \<lparr>d_pos = 0, d_len = 10, d_closed = False\<rparr>)\<rparr>
        \<noteq> example_queue\<lparr>queue := (queue example_queue)[0 :=
                                      (queue example_queue ! 0)\<lparr>ended := False\<rparr>]\<rparr>"
  proof
    assume "example_queue\<lparr>decoders := (decoders example_queue)
                             (1 := \<lparr>d_pos = 0, d_len = 10, d_closed = False\<rparr>)\<rparr>
        = example_queue\<lparr>queue := (queue example_queue)[0 :=
                                      (queue example_queue ! 0)\<lparr>ended := False\<rparr>]\<rparr>"
    then have "decoders (example_queue\<lparr>decoders := (decoders example_queue)
                             (1 := \<lparr>d_pos = 0, d_len = 10, d_closed = False\<rparr>)\<rparr>) 1
        = decoders (example_queue\<lparr>queue := (queue example_queue)[0 :=
                                      (queue example_queue ! 0)\<lparr>ended := False\<rparr>]\<rparr>) 1"
      by (rule arg_cong)
    then show False by (simp add: d example_decoders_def)
  qed
  show ?thesis
    using r n by (simp add: d example_decoders_def Position_def Len_def)
qed

text \<open>
  Claim C5, amended. For a track whose decoder position differs from its length,
  \<open>restartTrack\<close> clears the track's \<open>ended\<close> flag and seeks its decoder to offset 0, and
  changes nothing else: the resampled view, the installed streamer and the speaker stay as
  they were.
\<close>

theorem restartTrack_not_finished:
  assumes "0 \<le> index" and "index < len s"
      and "stream (queue s ! nat index) = Some r"
      and "Position (decoders s r) \<noteq> Len (decoders s r)"
  shows "restartTrack s index =
           Inr (s\<lparr>queue := (queue s)[nat index := (queue s ! nat index)\<lparr>ended := False\<rparr>],
                  decoders := (decoders s)(r := Seek (decoders s r) 0)\<rparr>)
         \<and> Position (Seek (decoders s r) 0) = 0"
  using assms
  by (simp add: restartTrack_def set_ended_def Let_def len_def Seek_def Position_def)

theorem restartTrack_not_finished_witness:
  "0 \<le> (0::int) \<and> 0 < len example_queue
   \<and> stream (queue example_queue ! nat 0) = Some 1
   \<and> Position (decoders example_queue 1) \<noteq> Len (decoders example_queue 1)
   \<and> restartTrack example_queue 0 =
         Inr (example_queue\<lparr>queue := (queue example_queue)[nat 0 :=
                                        (queue example_queue ! nat 0)\<lparr>ended := False\<rparr>],
                decoders := (decoders example_queue)(1 := Seek (decoders example_queue 1) 0)\<rparr>)
   \<and> Position (Seek (decoders example_queue 1) 0) = 0"
proof -
  have q: "queue example_queue =
             [example_track ''/music/a.mp3'' 1 44100, example_track ''/music/b.mp3'' 2 48000]"
    and d: "decoders example_queue = example_decoders"
    by (simp_all add: example_queue_def addTrack_def newTrackQueue_def)
  have h1: "0 \<le> (0::int)" by simp
  have h2: "0 < len example_queue" by (simp add: len_def q)
  have h3: "stream (queue example_queue ! nat 0) = Some 1" by (simp add: q example_track_def)
  have h4: "Position (decoders example_queue 1) \<noteq> Len (decoders example_queue 1)"
    by (simp add: d example_decoders_def Position_def Len_def)
  show ?thesis
    using h1 h2 h3 h4 restartTrack_not_finished [OF h1 h2 h3 h4] by simp
qed

subsection \<open>C6: the resampled view rebuilt by restartTrack\<close>

text \<open>
  Claim C6 against the code. \<open>loadTrack\<close> builds the view with
  \<open>Resample(4, format.SampleRate, basicSampleRate, stream)\<close>; \<open>restartTrack\<close> rebuilds it
  with the two rates exchanged. For a file that decodes at 48000 Hz the view built at load
  time converts from 48000 to 44100, and the view rebuilt after the track was played to
  its end converts from 44100 to 48000.
\<close>

theorem restartTrack_resample_swapped:
  "loadTrack example_env ''/music/b.mp3'' = Inr (example_track ''/music/b.mp3'' 2 48000, None)
   \<and> resampled (example_track ''/music/b.mp3'' 2 48000) = Resampler 4 48000 44100 (Some 2)
   \<and> (case restartTrack (addTrack (newTrackQueue finished_decoders)
                                   (example_track ''/music/b.mp3'' 2 48000)) 0 of
        Inl p \<Rightarrow> []
      | Inr s' \<Rightarrow> map resampled (queue s')) = [Resampler 4 44100 48000 (Some 2)]"
  by (simp add: loadTrack_def Let_def filepath_Ext_def supportedFormats_def example_env_def
                Resample_def basicSampleRate_def example_track_def restartTrack_def
                set_ended_def len_def addTrack_def newTrackQueue_def finished_decoders_def
                Position_def Len_def)

subsection \<open>C10: loadTrack when decoding fails\<close>

text \<open>
  Claim C10 against the code. \<open>loadTrack\<close> checks the error of \<open>mp3.Decode\<close> only after
  it has built the resampled view from the decoder's results. When decoding fails these
  are nil and the zero format, so the view is built with
  \<open>Resample(4, 0, basicSampleRate, nil)\<close>, whose ratio is 0: the constructor panics, and
  \<open>loadTrack\<close> does not return the decoder's error with an empty track. For a file with
  the extension mp3 that opens, is not a directory and fails to decode, the call ends in
  the panic for an invalid ratio.
\<close>

theorem loadTrack_decode_error_panics:
  "mp3_Decode broken_env 5 = Inl (ExternalError ''mp3: unexpected EOF'')
   \<and> loadTrack broken_env ''/music/broken.mp3'' = Inl ResampleInvalidRatio
   \<and> loadTrack broken_env ''/music/broken.mp3'' \<noteq>
       Inr (track_zero, Some (ExternalError ''mp3: unexpected EOF''))"
proof -
  have h1: "(let ext = filepath_Ext ''/music/broken.mp3'' in if ext \<noteq> [] then tl ext else ext)
             \<in> set supportedFormats"
    by (simp add: filepath_Ext_def supportedFormats_def)
  have h2: "os_Open broken_env ''/music/broken.mp3'' = Inr 5"
    and h3: "file_Stat broken_env 5 = Inr False"
    and h4: "mp3_Decode broken_env 5 = Inl (ExternalError ''mp3: unexpected EOF'')"
    by (simp_all add: broken_env_def)
  from loadTrack_decode_failure [OF h1 h2 h3 h4] h4 show ?thesis by simp
qed

subsection \<open>C8: removeTrack\<close>

text \<open>
  Claim C8. \<open>removeTrack\<close> returns the state unchanged when no track's base filename
  equals the name. When the first track whose base filename equals the name is at index
  \<open>i\<close>, it sets \<open>currentTrack\<close> to \<open>i - 1\<close> (to 0 when \<open>i\<close> is 0), deletes that element and
  changes nothing else; in a queue without duplicate paths the removed track and its path
  no longer occur in \<open>getTracks\<close> afterwards.
\<close>

theorem removeTrack_spec:
  "((\<forall>t \<in> set (queue s). filepath_Base (path t) \<noteq> trackName) \<longrightarrow> removeTrack s trackName = s)
   \<and> (\<forall>i. i < length (queue s) \<and> filepath_Base (path (queue s ! i)) = trackName
           \<and> (\<forall>j < i. filepath_Base (path (queue s ! j)) \<noteq> trackName) \<longrightarrow>
          removeTrack s trackName =
            s\<lparr>currentTrack := (if i = 0 then 0 else int i - 1),
              queue := take i (queue s) @ drop (Suc i) (queue s)\<rparr>
          \<and> length (getTracks (removeTrack s trackName)) = length (queue s) - 1
          \<and> (distinct (map path (queue s)) \<longrightarrow>
               path (queue s ! i) \<notin> set (map path (getTracks (removeTrack s trackName)))
               \<and> queue s ! i \<notin> set (getTracks (removeTrack s trackName))))"
proof (intro conjI impI allI)
  assume "\<forall>t \<in> set (queue s). filepath_Base (path t) \<noteq> trackName"
  then show "removeTrack s trackName = s" by (rule removeTrack_no_match)
next
  fix i
  assume a: "i < length (queue s) \<and> filepath_Base (path (queue s ! i)) = trackName
           \<and> (\<forall>j < i. filepath_Base (path (queue s ! j)) \<noteq> trackName)"
  then have r: "removeTrack s trackName =
            s\<lparr>currentTrack := (if i = 0 then 0 else int i - 1),
              queue := take i (queue s) @ drop (Suc i) (queue s)\<rparr>"
    by (intro removeTrack_match) simp_all
  show "removeTrack s trackName =
            s\<lparr>currentTrack := (if i = 0 then 0 else int i - 1),
              queue := take i (queue s) @ drop (Suc i) (queue s)\<rparr>" by (rule r)
  show "length (getTracks (removeTrack s trackName)) = length (queue s) - 1"
    using a by (simp add: r getTracks_def)
  {
    assume d: "distinct (map path (queue s))"
    have i: "i < length (queue s)" using a by simp
    have split: "map path (queue s) =
             map path (take i (queue s)) @ path (queue s ! i) # map path (drop (Suc i) (queue s))"
      using i by (metis id_take_nth_drop list.simps(9) map_append)
    from d have "distinct (map path (take i (queue s)) @ path (queue s ! i)
                           # map path (drop (Suc i) (queue s)))"
      using split by simp
    then have notin: "path (queue s ! i) \<notin> set (map path (take i (queue s) @ drop (Suc i) (queue s)))"
      by auto
    then show "path (queue s ! i) \<notin> set (map path (getTracks (removeTrack s trackName)))"
      by (simp add: r getTracks_def)
    from notin show "queue s ! i \<notin> set (getTracks (removeTrack s trackName))"
      by (auto simp: r getTracks_def)
  }
qed

theorem removeTrack_spec_witness:
  "removeTrack example_queue ''zzz.mp3'' = example_queue
   \<and> removeTrack example_queue ''b.mp3'' =
       example_queue\<lparr>currentTrack := 0, queue := [example_track ''/music/a.mp3'' 1 44100]\<rparr>
   \<and> ''/music/b.mp3'' \<notin> set (map path (getTracks (removeTrack example_queue ''b.mp3'')))"
proof -
  have q: "queue example_queue =
             [example_track ''/music/a.mp3'' 1 44100, example_track ''/music/b.mp3'' 2 48000]"
    by (simp add: example_queue_def addTrack_def newTrackQueue_def)
  have b: "filepath_Base ''/music/a.mp3'' = ''a.mp3''" "filepath_Base ''/music/b.mp3'' = ''b.mp3''"
    by (simp_all add: filepath_Base_def)
  have 1: "removeTrack example_queue ''zzz.mp3'' = example_queue"
    using removeTrack_spec [of example_queue "''zzz.mp3''"]
    by (simp add: q b example_track_def)
  have 2: "removeTrack example_queue ''b.mp3'' =
             example_queue\<lparr>currentTrack := 0, queue := [example_track ''/music/a.mp3'' 1 44100]\<rparr>
           \<and> ''/music/b.mp3'' \<notin> set (map path (getTracks (removeTrack example_queue ''b.mp3'')))"
    using removeTrack_spec [of example_queue "''b.mp3''", THEN conjunct2, THEN spec, of 1]
    by (simp add: q b example_track_def getTracks_def)
  from 1 2 show ?thesis by blast
qed

subsection \<open>C3: the index stays in range\<close>

text \<open>
  Claim C3. No sequence of engine operations from the empty queue panics with an index out
  of range, and in every state such a sequence reaches \<open>currentTrack\<close> satisfies the index
  invariant: it lies in \<open>[0, len)\<close> when the queue is non-empty (and is 0 when it is
  empty). There \<open>getCurrentTrack\<close> returns the track at \<open>currentTrack\<close>, or not-found
  exactly on the empty queue, and a navigation call (\<open>nextTrack\<close>, \<open>prevTrack\<close>,
  \<open>restartCurrentTrack\<close>) moves \<open>currentTrack\<close> by at most one. \<open>restartQueue\<close> is not
  a step of this kind: it puts \<open>currentTrack\<close> back to 0.
\<close>

theorem reachable_index_inv:
  "run ops (newTrackQueue h) \<noteq> Inl IndexOutOfRange
   \<and> (\<forall>s. run ops (newTrackQueue h) = Inr s \<longrightarrow>
        index_inv s
        \<and> getCurrentTrack s =
            (if queue s = [] then Inr (track_zero, False)
             else Inr (queue s ! nat (currentTrack s), True))
        \<and> nextTrack s \<noteq> Inl IndexOutOfRange
        \<and> prevTrack s \<noteq> Inl IndexOutOfRange
        \<and> restartCurrentTrack s \<noteq> Inl IndexOutOfRange
        \<and> (\<forall>s'. nextTrack s = Inr s' \<longrightarrow>
              currentTrack s' = currentTrack s \<or> currentTrack s' = currentTrack s + 1)
        \<and> (\<forall>s'. prevTrack s = Inr s' \<longrightarrow>
              currentTrack s' = currentTrack s \<or> currentTrack s' = currentTrack s - 1)
        \<and> (\<forall>s'. restartCurrentTrack s = Inr s' \<longrightarrow> currentTrack s' = currentTrack s)
        \<and> (\<forall>s'. restartQueue s = Inr s' \<longrightarrow> currentTrack s' = 0))"
proof (intro conjI allI impI)
  show "run ops (newTrackQueue h) \<noteq> Inl IndexOutOfRange"
    using run_index [OF index_inv_newTrackQueue] by blast
next
  fix s assume "run ops (newTrackQueue h) = Inr s"
  with run_index [OF index_inv_newTrackQueue, of ops h] have inv: "index_inv s" by blast
  then show "index_inv s" .
  show "getCurrentTrack s =
            (if queue s = [] then Inr (track_zero, False)
             else Inr (queue s ! nat (currentTrack s), True))"
    by (rule getCurrentTrack_index [OF inv])
  show "nextTrack s \<noteq> Inl IndexOutOfRange" by (rule nextTrack_index(1) [OF inv])
  show "prevTrack s \<noteq> Inl IndexOutOfRange" by (rule prevTrack_index(1) [OF inv])
  show "restartCurrentTrack s \<noteq> Inl IndexOutOfRange"
    by (rule restartCurrentTrack_index(1) [OF inv])
  {
    fix s' assume "nextTrack s = Inr s'"
    from nextTrack_index(2) [OF inv this]
    show "currentTrack s' = currentTrack s \<or> currentTrack s' = currentTrack s + 1" by simp
  }
  {
    fix s' assume "prevTrack s = Inr s'"
    from prevTrack_index(2) [OF inv this]
    show "currentTrack s' = currentTrack s \<or> currentTrack s' = currentTrack s - 1" by simp
  }
  {
    fix s' assume "restartCurrentTrack s = Inr s'"
    from restartCurrentTrack_index(2) [OF inv this]
    show "currentTrack s' = currentTrack s" by simp
  }
  {
    fix s' assume "restartQueue s = Inr s'"
    then show "currentTrack s' = 0"
      by (auto simp: restartQueue_def split: sum.splits)
  }
qed

theorem reachable_index_inv_witness:
  "run [Add (example_track ''/music/a.mp3'' 1 44100), Add (example_track ''/music/b.mp3'' 2 48000),
        Next, Remove ''a.mp3''] (newTrackQueue example_decoders) \<noteq> Inl IndexOutOfRange
   \<and> (\<exists>s. run [Add (example_track ''/music/a.mp3'' 1 44100),
                Add (example_track ''/music/b.mp3'' 2 48000),
                Next, Remove ''a.mp3''] (newTrackQueue example_decoders) = Inr s
          \<and> index_inv s \<and> currentTrack s = 0 \<and> map path (queue s) = [''/music/b.mp3'']
          \<and> getCurrentTrack s = Inr (example_track ''/music/b.mp3'' 2 48000, True))"
proof -
  have b: "filepath_Base ''/music/a.mp3'' = ''a.mp3''" "filepath_Base ''/music/b.mp3'' = ''b.mp3''"
    by (simp_all add: filepath_Base_def)
  have "\<exists>s. run [Add (example_track ''/music/a.mp3'' 1 44100),
                Add (example_track ''/music/b.mp3'' 2 48000),
                Next, Remove ''a.mp3''] (newTrackQueue example_decoders) = Inr s
          \<and> currentTrack s = 0 \<and> queue s = [example_track ''/music/b.mp3'' 2 48000]"
    by (simp add: addTrack_def nextTrack_def set_ended_def len_def removeTrack_def
                  slices_Delete_def newTrackQueue_def b example_track_def)
  then obtain s where s: "run [Add (example_track ''/music/a.mp3'' 1 44100),
                Add (example_track ''/music/b.mp3'' 2 48000),
                Next, Remove ''a.mp3''] (newTrackQueue example_decoders) = Inr s"
    "currentTrack s = 0" "queue s = [example_track ''/music/b.mp3'' 2 48000]"
    by blast
  from reachable_index_inv
         [of "[Add (example_track ''/music/a.mp3'' 1 44100),
               Add (example_track ''/music/b.mp3'' 2 48000), Next, Remove ''a.mp3'']"
             example_decoders] s
  show ?thesis by (auto simp: example_track_def)
qed

subsection \<open>C7: the ended flag and the decoder position\<close>

text \<open>
  Claim C7, as stated, fails: \<open>nextTrack\<close> sets the \<open>ended\<close> flag of the current track
  whatever its decoder's position is. After a track whose decoder stands at frame 3 of 10
  is added to the empty queue and \<open>nextTrack\<close> is called, the track is flagged \<open>ended\<close>
  while its decoder is not at its end.
\<close>

theorem ended_inv_next_counterexample:
  "run [Add (example_track ''/music/a.mp3'' 1 44100), Next] (newTrackQueue example_decoders) =
     Inr ((addTrack (newTrackQueue example_decoders) (example_track ''/music/a.mp3'' 1 44100))
            \<lparr>queue := [(example_track ''/music/a.mp3'' 1 44100)\<lparr>ended := True\<rparr>]\<rparr>)
   \<and> \<not> ended_inv ((addTrack (newTrackQueue example_decoders) (example_track ''/music/a.mp3'' 1 44100))
            \<lparr>queue := [(example_track ''/music/a.mp3'' 1 44100)\<lparr>ended := True\<rparr>]\<rparr>)"
  by (simp add: addTrack_def nextTrack_def set_ended_def len_def newTrackQueue_def
                ended_inv_def fully_played_def example_track_def example_decoders_def
                rebuildStreamer_def Position_def Len_def)

text \<open>
  Claim C7, amended. In a queue whose tracks refer to pairwise distinct decoders, the
  invariant "every track flagged \<open>ended\<close> has been played to its end" is preserved by each
  engine operation other than \<open>nextTrack\<close> (for \<open>addTrack\<close>: of a track with a decoder of
  its own that is not flagged, or has been played to its end), and by \<open>nextTrack\<close> when
  the current track has been played to its end.
\<close>

theorem ended_inv_preserved:
  assumes inv: "ended_inv s" and dist: "distinct (map stream (queue s))"
      and ex: "exec x s = Inr s'"
      and nx: "x = Next \<longrightarrow> queue s \<noteq> [] \<longrightarrow> fully_played s (queue s ! nat (currentTrack s))"
      and ad: "\<forall>t. x = Add t \<longrightarrow>
                 stream t \<notin> set (map stream (queue s)) \<and> (ended t \<longrightarrow> fully_played s t)"
  shows "ended_inv s' \<and> distinct (map stream (queue s'))"
proof (cases x)
  case (Add t)
  with ex have s': "s' = addTrack s t" by simp
  from ad Add have t: "stream t \<notin> set (map stream (queue s))" "ended t \<longrightarrow> fully_played s t"
    by simp_all
  have d: "decoders s' = decoders s" by (simp add: s' addTrack_def)
  have q: "queue s' = queue s @ [t]" by (simp add: s' addTrack_def)
  have "ended_inv s'"
    unfolding ended_inv_def
  proof (intro ballI impI)
    fix u assume "u \<in> set (queue s')" and e: "ended u"
    then have "u \<in> set (queue s) \<or> u = t" by (auto simp: q)
    with inv t(2) e have "fully_played s u" by (auto simp: ended_inv_def)
    then show "fully_played s' u" by (simp add: fully_played_cong [OF d])
  qed
  moreover have "distinct (map stream (queue s'))" using dist t(1) by (simp add: q)
  ultimately show ?thesis by simp
next
  case (Remove n)
  with ex have "s' = removeTrack s n" by simp
  with removeTrack_ended_inv [OF inv dist, of n] show ?thesis by simp
next
  case Next
  with ex have "nextTrack s = Inr s'" by simp
  from nextTrack_ended_inv [OF inv this] nx Next dist show ?thesis by simp
next
  case Previous
  with ex have "prevTrack s = Inr s'" by simp
  from prevTrack_ended_inv [OF inv this] dist show ?thesis by simp
next
  case Restart
  with ex have r: "restartCurrentTrack s = Inr s'" by simp
  show ?thesis
  proof (cases "len s = 0")
    case True
    with r inv dist show ?thesis by (simp add: restartCurrentTrack_def)
  next
    case False
    with r have "restartTrack s (currentTrack s) = Inr s'" by (simp add: restartCurrentTrack_def)
    from restartTrack_ended_inv [OF inv dist this] show ?thesis .
  qed
next
  case RestartAll
  with ex obtain s1 where s1: "restart_loop [0 ..< length (queue s)] s = Inr s1"
    and s': "s' = rebuildStreamer (s1\<lparr>currentTrack := 0\<rparr>)"
    by (auto simp: restartQueue_def split: sum.splits)
  from restart_loop_ended_inv [OF inv dist s1]
  have "ended_inv s1" "distinct (map stream (queue s1))" by simp_all
  moreover have "ended_inv s' = ended_inv s1"
    by (rule ended_inv_cong) (simp_all add: s')
  ultimately show ?thesis by (simp add: s')
next
  case Clear
  with ex have "queue s' = []" by (auto simp: clear_def split: sum.splits)
  then show ?thesis by (simp add: ended_inv_def)
next
  case (ChangeVolume p)
  with ex have s': "s' = changeVolume s p" by simp
  have "ended_inv s' = ended_inv s" by (rule ended_inv_cong) (simp_all add: s')
  with inv dist show ?thesis by (simp add: s')
next
  case Pause
  with ex have s': "s' = pause s" by simp
  have "ended_inv s' = ended_inv s" by (rule ended_inv_cong) (simp_all add: s' pause_def)
  with inv dist show ?thesis by (simp add: s' pause_def)
next
  case Unpause
  with ex have s': "s' = unpause s" by simp
  have "ended_inv s' = ended_inv s" by (rule ended_inv_cong) (simp_all add: s' unpause_def)
  with inv dist show ?thesis by (simp add: s' unpause_def)
next
  case Play
  with ex have s': "s' = play s" by simp
  have "ended_inv s' = ended_inv s" by (rule ended_inv_cong) (simp_all add: s')
  with inv dist show ?thesis by (simp add: s')
qed

theorem ended_inv_preserved_witness:
  "ended_inv (example_queue\<lparr>decoders := finished_decoders\<rparr>)
   \<and> distinct (map stream (queue (example_queue\<lparr>decoders := finished_decoders\<rparr>)))
   \<and> fully_played (example_queue\<lparr>decoders := finished_decoders\<rparr>)
         (queue (example_queue\<lparr>decoders := finished_decoders\<rparr>)
            ! nat (currentTrack (example_queue\<lparr>decoders := finished_decoders\<rparr>)))
   \<and> (\<exists>s'. exec Next (example_queue\<lparr>decoders := finished_decoders\<rparr>) = Inr s'
          \<and> ended (queue s' ! 0)
          \<and> ended_inv s' \<and> distinct (map stream (queue s')))"
proof -
  let ?F = "example_queue\<lparr>decoders := finished_decoders\<rparr>"
  have q: "queue example_queue =
             [example_track ''/music/a.mp3'' 1 44100, example_track ''/music/b.mp3'' 2 48000]"
    and c: "currentTrack example_queue = 0"
    by (simp_all add: example_queue_def addTrack_def newTrackQueue_def)
  have h1: "ended_inv ?F"
    by (simp add: ended_inv_def q example_track_def)
  have h2: "distinct (map stream (queue ?F))"
    by (simp add: q example_track_def)
  have fp: "fully_played ?F (queue ?F ! nat (currentTrack ?F))"
    by (simp add: q c fully_played_def example_track_def finished_decoders_def
                  Position_def Len_def)
  have "\<exists>s'. nextTrack ?F = Inr s' \<and> ended (queue s' ! 0)"
    by (simp add: nextTrack_def set_ended_def len_def q c)
  then obtain s' where s': "exec Next ?F = Inr s'" and e: "ended (queue s' ! 0)"
    by auto
  have h4: "Next = Next \<longrightarrow> queue ?F \<noteq> [] \<longrightarrow> fully_played ?F (queue ?F ! nat (currentTrack ?F))"
    using fp by simp
  have h5: "\<forall>t. Next = Add t \<longrightarrow>
              stream t \<notin> set (map stream (queue ?F)) \<and> (ended t \<longrightarrow> fully_played ?F t)"
    by simp
  from ended_inv_preserved [OF h1 h2 s' h4 h5] h1 h2 fp s' e
  show ?thesis by blast
qed

end
